theory Spec2Isabelle
  imports Complex_Main "HOL-Library.Multiset"
begin

section \<open>Sparse vectors and matrices of \<open>creme/utils/math.py\<close>\<close>

text \<open>
  A Python \<open>dict\<close> is modelled as an association list in insertion order; a well-formed
  dict has pairwise distinct keys (\<open>wf_dict\<close>). Numeric values (Python ints and floats)
  are modelled as reals. The functions are first embedded over exact arithmetic; those
  whose result depends on rounding (\<open>dot\<close>, \<open>chain_dot\<close>, \<open>softmax\<close>) are embedded a second
  time with a rounding operator after every operation, see the subsection on
  double-precision arithmetic. A statement about a function without the suffix \<open>_rnd\<close> is
  a statement about exact arithmetic.
\<close>

type_synonym ('k, 'v) dict = "('k \<times> 'v) list"

datatype py_error = ValueError | ZeroDivisionError | KeyError

definition keys :: "('k, 'v) dict \<Rightarrow> 'k list" where
  "keys d = map fst d"

definition dict_values :: "('k, 'v) dict \<Rightarrow> 'v list" where
  "dict_values d = map snd d"

definition wf_dict :: "('k, 'v) dict \<Rightarrow> bool" where
  "wf_dict d = distinct (keys d)"

text \<open>\<open>d.get(k, dflt)\<close>\<close>

definition dict_get :: "('k, 'v) dict \<Rightarrow> 'k \<Rightarrow> 'v \<Rightarrow> 'v" where
  "dict_get d k dflt = (case map_of d k of None \<Rightarrow> dflt | Some v \<Rightarrow> v)"

text \<open>\<open>d[k]\<close> as an expression: raises \<open>KeyError\<close> on a missing key.\<close>

definition dict_item :: "('k, 'v) dict \<Rightarrow> 'k \<Rightarrow> py_error + 'v" where
  "dict_item d k = (case map_of d k of None \<Rightarrow> Inl KeyError | Some v \<Rightarrow> Inr v)"

text \<open>\<open>d[k] = v\<close>: an existing key keeps its position, a new key is appended.\<close>

fun dict_set :: "'k \<Rightarrow> 'v \<Rightarrow> ('k, 'v) dict \<Rightarrow> ('k, 'v) dict" where
  "dict_set k v [] = [(k, v)]"
| "dict_set k v (e # d) = (if fst e = k then (k, v) # d else e # dict_set k v d)"

text \<open>The builtin \<open>sum\<close> (start value 0) and \<open>prod\<close> of the module
  (\<open>functools.reduce(operator.mul, iterable, 1)\<close>): left folds.\<close>

definition sum_py :: "real list \<Rightarrow> real" where
  "sum_py xs = foldl (+) 0 xs"

definition prod_py :: "real list \<Rightarrow> real" where
  "prod_py xs = foldl (*) 1 xs"

text \<open>The builtins \<open>min(a, b)\<close> and \<open>max(a, b)\<close>: the first argument is kept unless the
  second is strictly smaller (greater).\<close>

definition min_py :: "real \<Rightarrow> real \<Rightarrow> real" where
  "min_py a b = (if b < a then b else a)"

definition max_py :: "real \<Rightarrow> real \<Rightarrow> real" where
  "max_py a b = (if b > a then b else a)"

subsection \<open>\<open>dotvecmat\<close>, \<open>matmul2d\<close>, \<open>outer\<close>\<close>

text \<open>One iteration of the loop of \<open>dotvecmat\<close> over
  \<open>itertools.product(x.items(), A.items())\<close>:
  \<open>if i != j: continue\<close>; \<open>C[k] = C.get(j, 0.) + xi * ai\<close>.\<close>

definition dotvecmat_step ::
  "('k, real) dict \<Rightarrow> ('k \<times> real) \<times> (('k \<times> 'k) \<times> real) \<Rightarrow> ('k, real) dict" where
  "dotvecmat_step C e =
     (case e of ((i, xi), ((j, k), ai)) \<Rightarrow>
        if i \<noteq> j then C else dict_set k (dict_get C j 0 + xi * ai) C)"

definition dotvecmat :: "('k, real) dict \<Rightarrow> ('k \<times> 'k, real) dict \<Rightarrow> ('k, real) dict" where
  "dotvecmat x A = foldl dotvecmat_step [] (List.product x A)"

text \<open>The value that the documentation of \<open>dotvecmat\<close> gives to a result key \<open>k\<close>,
  following its words: the sum of \<open>x[i] * A[(i, k)]\<close> over the entries \<open>(i, k)\<close> of \<open>A\<close>
  whose row index \<open>i\<close> is a key of \<open>x\<close>.\<close>

definition dotvecmat_accumulated :: "('k, real) dict \<Rightarrow> ('k \<times> 'k, real) dict \<Rightarrow> 'k \<Rightarrow> real" where
  "dotvecmat_accumulated x A k =
     sum_list (map (\<lambda>e. case e of ((i, xi), ((j, k'), ai)) \<Rightarrow>
                       if i = j \<and> k' = k then xi * ai else 0) (List.product x A))"

text \<open>One iteration of the loop of \<open>matmul2d\<close>:
  \<open>if k1 != k2: continue\<close>; \<open>C[i, j] = C.get((i, j), 0.) + x * y\<close>.\<close>

definition matmul2d_step ::
  "('i \<times> 'j, real) dict \<Rightarrow> (('i \<times> 'k) \<times> real) \<times> (('k \<times> 'j) \<times> real) \<Rightarrow> ('i \<times> 'j, real) dict" where
  "matmul2d_step C e =
     (case e of (((i, k1), x), ((k2, j), y)) \<Rightarrow>
        if k1 \<noteq> k2 then C else dict_set (i, j) (dict_get C (i, j) 0 + x * y) C)"

definition matmul2d ::
  "('i \<times> 'k, real) dict \<Rightarrow> ('k \<times> 'j, real) dict \<Rightarrow> ('i \<times> 'j, real) dict" where
  "matmul2d A B = foldl matmul2d_step [] (List.product A B)"

text \<open>The dict comprehension of \<open>outer\<close>: one assignment per pair of items.\<close>

definition outer :: "('i, real) dict \<Rightarrow> ('j, real) dict \<Rightarrow> ('i \<times> 'j, real) dict" where
  "outer u v =
     foldl (\<lambda>C e. case e of ((ki, vi), (kj, vj)) \<Rightarrow> dict_set (ki, kj) (vi * vj) C)
       [] (List.product u v)"

subsection \<open>\<open>dot\<close>, \<open>chain_dot\<close>\<close>

definition dot :: "('k, real) dict \<Rightarrow> ('k, real) dict \<Rightarrow> real" where
  "dot x y =
     (if length x < length y
      then sum_py (map (\<lambda>(i, xi). xi * dict_get y i 0) x)
      else sum_py (map (\<lambda>(i, yi). dict_get x i 0 * yi) y))"

text \<open>\<open>min(xs, key=len)\<close>: \<open>ValueError\<close> on an empty sequence, otherwise the first
  element of least length.\<close>

fun min_len_from :: "'a list \<Rightarrow> 'a list list \<Rightarrow> 'a list" where
  "min_len_from best [] = best"
| "min_len_from best (x # xs) =
     (if length x < length best then min_len_from x xs else min_len_from best xs)"

definition min_len :: "'a list list \<Rightarrow> py_error + 'a list" where
  "min_len xs = (case xs of [] \<Rightarrow> Inl ValueError | x # rest \<Rightarrow> Inr (min_len_from x rest))"

definition chain_dot :: "('k, real) dict list \<Rightarrow> py_error + real" where
  "chain_dot xs =
     (case min_len xs of
        Inl e \<Rightarrow> Inl e
      | Inr smallest \<Rightarrow>
          Inr (sum_py (map (\<lambda>i. prod_py (map (\<lambda>x. dict_get x i 0) xs)) (keys smallest))))"

subsection \<open>\<open>sherman_morrison\<close>\<close>

text \<open>The loop \<open>A_inv[k] = A_inv.get(k, 0) - v / den\<close> over the items of the correction
  matrix; the division raises \<open>ZeroDivisionError\<close> when \<open>den\<close> is zero.\<close>

fun sherman_morrison_loop ::
  "real \<Rightarrow> ('k, real) dict \<Rightarrow> ('k, real) dict \<Rightarrow> py_error + ('k, real) dict" where
  "sherman_morrison_loop den [] A_inv = Inr A_inv"
| "sherman_morrison_loop den ((k, c) # rest) A_inv =
     (if den = 0 then Inl ZeroDivisionError
      else sherman_morrison_loop den rest (dict_set k (dict_get A_inv k 0 - c / den) A_inv))"

definition sherman_morrison ::
  "('k \<times> 'k, real) dict \<Rightarrow> ('k, real) dict \<Rightarrow> ('k, real) dict \<Rightarrow> py_error + ('k \<times> 'k, real) dict" where
  "sherman_morrison A_inv u v =
     (let den = 1 + dot (dotvecmat u A_inv) v
      in sherman_morrison_loop den (matmul2d (matmul2d A_inv (outer u v)) A_inv) A_inv)"

subsection \<open>\<open>softmax\<close>, \<open>sigmoid\<close>, \<open>clamp\<close>\<close>

text \<open>\<open>max(y_pred.values())\<close> on a non-empty sequence.\<close>

definition max_values :: "real list \<Rightarrow> real" where
  "max_values vs = foldl max_py (hd vs) (tl vs)"

text \<open>First loop of \<open>softmax\<close>, over the items of the dict:
  \<open>y_pred[c] = math.exp(p - maximum)\<close>; \<open>total += y_pred[c]\<close>. Only values are
  assigned, so the items visited are those of the dict on entry.\<close>

fun softmax_exp_loop ::
  "real \<Rightarrow> ('k \<times> real) list \<Rightarrow> ('k, real) dict \<Rightarrow> real \<Rightarrow> py_error + (('k, real) dict \<times> real)" where
  "softmax_exp_loop maximum [] y_pred tot = Inr (y_pred, tot)"
| "softmax_exp_loop maximum ((c, p) # items) y_pred tot =
     (let y_pred' = dict_set c (exp (p - maximum)) y_pred
      in case dict_item y_pred' c of
           Inl e \<Rightarrow> Inl e
         | Inr v \<Rightarrow> softmax_exp_loop maximum items y_pred' (tot + v))"

text \<open>Second loop of \<open>softmax\<close>, over the keys: \<open>y_pred[c] /= tot\<close>.\<close>

fun softmax_div_loop ::
  "real \<Rightarrow> 'k list \<Rightarrow> ('k, real) dict \<Rightarrow> py_error + ('k, real) dict" where
  "softmax_div_loop tot [] y_pred = Inr y_pred"
| "softmax_div_loop tot (c # cs) y_pred =
     (case dict_item y_pred c of
        Inl e \<Rightarrow> Inl e
      | Inr v \<Rightarrow>
          if tot = 0 then Inl ZeroDivisionError
          else softmax_div_loop tot cs (dict_set c (v / tot) y_pred))"

definition softmax :: "('k, real) dict \<Rightarrow> py_error + ('k, real) dict" where
  "softmax y_pred =
     (if y_pred = [] then Inr y_pred
      else
        let maximum = max_values (dict_values y_pred)
        in case softmax_exp_loop maximum y_pred y_pred 0 of
             Inl e \<Rightarrow> Inl e
           | Inr (y_pred', tot) \<Rightarrow> softmax_div_loop tot (keys y_pred') y_pred')"

definition sigmoid :: "real \<Rightarrow> real" where
  "sigmoid x = (if x < - 30 then 0 else if x > 30 then 1 else 1 / (1 + exp (- x)))"

definition clamp :: "real \<Rightarrow> real \<Rightarrow> real \<Rightarrow> real" where
  "clamp x minimum maximum = max_py (min_py x maximum) minimum"

subsection \<open>Double-precision arithmetic\<close>

text \<open>
  A Python float is an IEEE binary64 number. A finite double is modelled by the real number
  it denotes, and an arithmetic operation on doubles by the exact operation followed by a
  rounding operator \<open>r\<close>. \<open>round_double x\<close> is the double nearest to \<open>x\<close>, ties going to the
  even significand: significands have 53 bits, so the doubles of the binade
  \<open>[2\<^sup>e, 2\<^sup>e\<^sup>+\<^sup>1)\<close> are spaced by \<open>2\<^sup>e\<^sup>-\<^sup>5\<^sup>2\<close>, and below \<open>2\<^sup>-\<^sup>1\<^sup>0\<^sup>2\<^sup>2\<close> the spacing stays at
  \<open>2\<^sup>-\<^sup>1\<^sup>0\<^sup>7\<^sup>4\<close> (subnormal numbers). Infinities and NaN are not modelled: \<open>round_double\<close>
  does not overflow, so it describes the interpreter only where every intermediate result
  is a finite double. \<open>math.exp\<close> is taken as correctly rounded.
\<close>

definition round_half_even :: "real \<Rightarrow> int" where
  "round_half_even q =
     (let f = \<lfloor>q\<rfloor>; d = q - of_int f
      in if d < 1 / 2 then f else if 1 / 2 < d then f + 1 else if even f then f else f + 1)"

definition binade :: "real \<Rightarrow> int" where
  "binade x = max \<lfloor>log 2 \<bar>x\<bar>\<rfloor> (- 1022)"

definition ulp :: "real \<Rightarrow> real" where
  "ulp x = 2 powr of_int (binade x - 52)"

definition round_double :: "real \<Rightarrow> real" where
  "round_double x = (if x = 0 then 0 else of_int (round_half_even (x / ulp x)) * ulp x)"

text \<open>
  The functions whose result depends on rounding, with \<open>r\<close> applied to the result of every
  arithmetic operation of the source. With the identity for \<open>r\<close> they are the functions
  over exact reals above; with \<open>round_double\<close> they compute on doubles.
\<close>

definition sum_rnd :: "(real \<Rightarrow> real) \<Rightarrow> real list \<Rightarrow> real" where
  "sum_rnd r xs = foldl (\<lambda>a b. r (a + b)) 0 xs"

definition prod_rnd :: "(real \<Rightarrow> real) \<Rightarrow> real list \<Rightarrow> real" where
  "prod_rnd r xs = foldl (\<lambda>a b. r (a * b)) 1 xs"

definition dot_rnd :: "(real \<Rightarrow> real) \<Rightarrow> ('k, real) dict \<Rightarrow> ('k, real) dict \<Rightarrow> real" where
  "dot_rnd r x y =
     (if length x < length y
      then sum_rnd r (map (\<lambda>(i, xi). r (xi * dict_get y i 0)) x)
      else sum_rnd r (map (\<lambda>(i, yi). r (dict_get x i 0 * yi)) y))"

definition chain_dot_rnd :: "(real \<Rightarrow> real) \<Rightarrow> ('k, real) dict list \<Rightarrow> py_error + real" where
  "chain_dot_rnd r xs =
     (case min_len xs of
        Inl e \<Rightarrow> Inl e
      | Inr smallest \<Rightarrow>
          Inr (sum_rnd r (map (\<lambda>i. prod_rnd r (map (\<lambda>x. dict_get x i 0) xs)) (keys smallest))))"

fun softmax_exp_loop_rnd ::
  "(real \<Rightarrow> real) \<Rightarrow> real \<Rightarrow> ('k \<times> real) list \<Rightarrow> ('k, real) dict \<Rightarrow> real
     \<Rightarrow> py_error + (('k, real) dict \<times> real)" where
  "softmax_exp_loop_rnd r maximum [] y_pred tot = Inr (y_pred, tot)"
| "softmax_exp_loop_rnd r maximum ((c, p) # items) y_pred tot =
     (let y_pred' = dict_set c (r (exp (r (p - maximum)))) y_pred
      in case dict_item y_pred' c of
           Inl e \<Rightarrow> Inl e
         | Inr v \<Rightarrow> softmax_exp_loop_rnd r maximum items y_pred' (r (tot + v)))"

fun softmax_div_loop_rnd ::
  "(real \<Rightarrow> real) \<Rightarrow> real \<Rightarrow> 'k list \<Rightarrow> ('k, real) dict \<Rightarrow> py_error + ('k, real) dict" where
  "softmax_div_loop_rnd r tot [] y_pred = Inr y_pred"
| "softmax_div_loop_rnd r tot (c # cs) y_pred =
     (case dict_item y_pred c of
        Inl e \<Rightarrow> Inl e
      | Inr v \<Rightarrow>
          if tot = 0 then Inl ZeroDivisionError
          else softmax_div_loop_rnd r tot cs (dict_set c (r (v / tot)) y_pred))"

definition softmax_rnd :: "(real \<Rightarrow> real) \<Rightarrow> ('k, real) dict \<Rightarrow> py_error + ('k, real) dict" where
  "softmax_rnd r y_pred =
     (if y_pred = [] then Inr y_pred
      else
        let maximum = max_values (dict_values y_pred)
        in case softmax_exp_loop_rnd r maximum y_pred y_pred 0 of
             Inl e \<Rightarrow> Inl e
           | Inr (y_pred', tot) \<Rightarrow> softmax_div_loop_rnd r tot (keys y_pred') y_pred')"

text \<open>
  What the statements about rounded runs of \<open>softmax\<close> use of a rounding operator: zero is
  kept, and a value that is at least 0 (at least 1) is not rounded below 0 (below 1).
\<close>

definition sound_rounding :: "(real \<Rightarrow> real) \<Rightarrow> bool" where
  "sound_rounding r = (r 0 = 0 \<and> (\<forall>v. 0 \<le> v \<longrightarrow> 0 \<le> r v) \<and> (\<forall>v. 1 \<le> v \<longrightarrow> 1 \<le> r v))"

section \<open>Dictionaries and folds\<close>

lemma foldl_add_sum_list: "foldl (+) a xs = (a::real) + sum_list xs"
  by (induction xs arbitrary: a) simp_all

lemma sum_py_sum_list: "sum_py xs = sum_list xs"
  by (simp add: sum_py_def foldl_add_sum_list)

lemma foldl_mult_prod_list: "foldl (*) a xs = (a::real) * prod_list xs"
  by (induction xs arbitrary: a) simp_all

lemma prod_py_prod_list: "prod_py xs = prod_list xs"
  by (simp add: prod_py_def foldl_mult_prod_list)

lemma map_of_dict_set: "map_of (dict_set k v d) = (map_of d)(k \<mapsto> v)"
  by (induction d) (auto simp: fun_eq_iff)

lemma keys_dict_set: "set (keys (dict_set k v d)) = insert k (set (keys d))"
  by (induction d) (auto simp: keys_def)

lemma wf_dict_set: "wf_dict d \<Longrightarrow> wf_dict (dict_set k v d)"
proof (induction d)
  case Nil
  then show ?case by (simp add: wf_dict_def keys_def)
next
  case (Cons e d)
  have "set (map fst (dict_set k v d)) = insert k (set (map fst d))"
    using keys_dict_set [of k v d] by (simp add: keys_def)
  with Cons show ?case by (auto simp: wf_dict_def keys_def)
qed

lemma dict_get_in: "wf_dict x \<Longrightarrow> (i, xi) \<in> set x \<Longrightarrow> dict_get x i dflt = xi"
  by (simp add: dict_get_def wf_dict_def keys_def)

lemma dict_get_notin: "i \<notin> set (keys x) \<Longrightarrow> dict_get x i dflt = dflt"
  by (simp add: dict_get_def keys_def map_of_eq_None_iff [THEN iffD2])

lemma sum_items_as_keys:
  assumes "wf_dict x"
  shows "sum_list (map (\<lambda>(i, xi). f i xi) x) = (\<Sum>i\<in>set (keys x). f i (dict_get x i 0))"
proof -
  have "map (\<lambda>(i, xi). f i xi) x = map (\<lambda>i. f i (dict_get x i 0)) (keys x)"
    using dict_get_in [OF assms] by (auto simp: keys_def)
  then show ?thesis
    using assms by (simp add: wf_dict_def sum_list_distinct_conv_sum_set)
qed

lemma dot_as_sum:
  assumes "wf_dict x" "wf_dict y"
  shows "dot x y = (\<Sum>i\<in>set (keys x) \<inter> set (keys y). dict_get x i 0 * dict_get y i 0)"
proof -
  let ?g = "\<lambda>i. dict_get x i 0 * dict_get y i 0"
  have a: "sum_list (map (\<lambda>(i, xi). xi * dict_get y i 0) x) = sum ?g (set (keys x))"
    using sum_items_as_keys [OF assms(1), of "\<lambda>i xi. xi * dict_get y i 0"] by simp
  have b: "sum_list (map (\<lambda>(i, yi). dict_get x i 0 * yi) y) = sum ?g (set (keys y))"
    using sum_items_as_keys [OF assms(2), of "\<lambda>i yi. dict_get x i 0 * yi"] by simp
  have a': "sum ?g (set (keys x)) = sum ?g (set (keys x) \<inter> set (keys y))"
    by (rule sum.mono_neutral_right) (auto simp: dict_get_notin)
  have b': "sum ?g (set (keys y)) = sum ?g (set (keys x) \<inter> set (keys y))"
  proof (rule sum.mono_neutral_right)
    show "\<forall>i\<in>set (keys y) - set (keys x) \<inter> set (keys y). ?g i = 0"
    proof
      fix i assume "i \<in> set (keys y) - set (keys x) \<inter> set (keys y)"
      then have "i \<notin> set (keys x)" by auto
      then show "?g i = 0" by (simp add: dict_get_notin)
    qed
  qed auto
  show ?thesis
    by (simp add: dot_def sum_py_sum_list a b a' b')
qed

lemma min_len_from_mem: "min_len_from best xs \<in> set (best # xs)"
  by (induction best xs rule: min_len_from.induct) auto

lemma min_len_cases:
  "min_len xs = Inl ValueError \<and> xs = [] \<or> (\<exists>d. min_len xs = Inr d \<and> d \<in> set xs)"
  using min_len_from_mem by (cases xs) (auto simp: min_len_def)

lemma prod_list_zero_factor:
  "x \<in> set xs \<Longrightarrow> f x = (0::real) \<Longrightarrow> prod_list (map f xs) = 0"
  by (induction xs) auto

lemma chain_dot_as_sum:
  assumes "xs \<noteq> []" "\<forall>x\<in>set xs. wf_dict x"
  shows "chain_dot xs =
    Inr (\<Sum>i\<in>(\<Inter>x\<in>set xs. set (keys x)). prod_mset (image_mset (\<lambda>x. dict_get x i 0) (mset xs)))"
proof -
  obtain d where d: "min_len xs = Inr d" "d \<in> set xs"
    using min_len_cases [of xs] assms(1) by auto
  let ?F = "\<lambda>i. prod_list (map (\<lambda>x. dict_get x i 0) xs)"
  have F: "?F i = prod_mset (image_mset (\<lambda>x. dict_get x i 0) (mset xs))" for i
    by (metis mset_map prod_mset_prod_list)
  have "distinct (keys d)" using assms(2) d(2) by (auto simp: wf_dict_def)
  then have s: "sum_list (map ?F (keys d)) = sum ?F (set (keys d))"
    by (simp add: sum_list_distinct_conv_sum_set)
  have "sum ?F (set (keys d)) = sum ?F (\<Inter>x\<in>set xs. set (keys x))"
  proof (rule sum.mono_neutral_right)
    show "\<forall>i\<in>set (keys d) - (\<Inter>x\<in>set xs. set (keys x)). ?F i = 0"
    proof
      fix i assume "i \<in> set (keys d) - (\<Inter>x\<in>set xs. set (keys x))"
      then obtain x where "x \<in> set xs" "i \<notin> set (keys x)" by auto
      then show "?F i = 0"
        using prod_list_zero_factor [of x xs "\<lambda>x. dict_get x i 0"] by (simp add: dict_get_notin)
    qed
  qed (use d(2) in auto)
  with s show ?thesis
    by (simp add: chain_dot_def d(1) sum_py_sum_list prod_py_prod_list F)
qed

lemma dict_get_dict_set:
  "dict_get (dict_set k v d) k' dflt = (if k' = k then v else dict_get d k' dflt)"
  by (simp add: dict_get_def map_of_dict_set)

lemma map_of_None_iff_keys: "(map_of d k = None) = (k \<notin> set (keys d))"
  by (simp add: keys_def map_of_eq_None_iff)



lemma dict_set_at:
  "k \<notin> fst ` set pre \<Longrightarrow> dict_set k v (pre @ (k, p) # post) = pre @ (k, v) # post"
  by (induction pre) auto

lemma dict_item_at:
  "k \<notin> fst ` set pre \<Longrightarrow> dict_item (pre @ (k, v) # post) k = Inr v"
  by (simp add: dict_item_def map_of_append map_add_def map_of_eq_None_iff [THEN iffD2])

lemma sum_list_map_pos:
  "xs \<noteq> [] \<Longrightarrow> (\<And>x. x \<in> set xs \<Longrightarrow> 0 < f x) \<Longrightarrow> 0 < (sum_list (map f xs) :: real)"
proof (induction xs)
  case Nil
  then show ?case by simp
next
  case (Cons x xs)
  have "0 \<le> sum_list (map f xs)"
    using Cons.prems(2) by (intro sum_list_nonneg) (auto intro: less_imp_le)
  moreover have "0 < f x" using Cons.prems(2) by simp
  ultimately show ?case by simp
qed

lemma sum_list_map_divide:
  "sum_list (map (\<lambda>x. f x / c) xs) = (sum_list (map f xs) :: real) / c"
  by (induction xs) (simp_all add: add_divide_distrib)

section \<open>Rounding\<close>

lemma round_half_even_of_int: "round_half_even (of_int k) = k"
  by (simp add: round_half_even_def)

lemma round_half_even_tie: "even k \<Longrightarrow> round_half_even (of_int k + 1 / 2) = k"
proof -
  have "\<lfloor>of_int k + (1 / 2 :: real)\<rfloor> = k" by (rule floor_unique) simp_all
  then show "even k \<Longrightarrow> round_half_even (of_int k + 1 / 2) = k"
    by (simp add: round_half_even_def Let_def)
qed

lemma round_half_even_below_half: "0 \<le> q \<Longrightarrow> q < 1 / 2 \<Longrightarrow> round_half_even q = 0"
proof -
  assume q: "0 \<le> q" "q < 1 / 2"
  then have "\<lfloor>q\<rfloor> = 0" by (intro floor_unique) simp_all
  with q show ?thesis by (simp add: round_half_even_def Let_def)
qed

lemma binade_eq:
  assumes "2 powr of_int e \<le> \<bar>x\<bar>" "\<bar>x\<bar> < 2 powr of_int (e + 1)" "- 1022 \<le> e"
  shows "binade x = e"
proof -
  have pos: "0 < \<bar>x\<bar>" using assms(1) by (smt (verit) powr_gt_zero)
  have "\<lfloor>log 2 \<bar>x\<bar>\<rfloor> = e"
  proof (rule floor_unique)
    show "of_int e \<le> log 2 \<bar>x\<bar>" using assms(1) pos by (simp add: le_log_iff)
    show "log 2 \<bar>x\<bar> < of_int e + 1" using assms(2) pos by (simp add: log_less_iff add.commute)
  qed
  with assms(3) show ?thesis by (simp add: binade_def)
qed

lemma binade_subnormal:
  assumes "x \<noteq> 0" "\<bar>x\<bar> < 2 powr (- 1022)"
  shows "binade x = - 1022"
proof -
  have "log 2 \<bar>x\<bar> < - 1022" using assms by (simp add: log_less_iff)
  then have "\<lfloor>log 2 \<bar>x\<bar>\<rfloor> < - 1022" by (simp add: floor_less_iff)
  then show ?thesis by (simp add: binade_def)
qed

lemma round_double_representable:
  assumes "x = of_int k * 2 powr of_int (e - 52)"
    and "2 powr of_int e \<le> \<bar>x\<bar>" "\<bar>x\<bar> < 2 powr of_int (e + 1)" "- 1022 \<le> e"
  shows "round_double x = x"
proof -
  define U :: real where "U = 2 powr of_int (e - 52)"
  have U: "0 < U" by (simp add: U_def)
  have u: "ulp x = U" unfolding ulp_def U_def binade_eq [OF assms(2-4)] ..
  have x: "x = of_int k * U" using assms(1) by (simp only: U_def)
  have q: "x / U = of_int k" using U by (simp add: x)
  have "round_double x = (if x = 0 then 0 else of_int (round_half_even (x / U)) * U)"
    by (simp only: round_double_def u)
  also have "\<dots> = (if x = 0 then 0 else x)"
    by (simp only: q round_half_even_of_int x [symmetric])
  finally show ?thesis by simp
qed

lemma round_double_tie_even:
  assumes "x = (of_int k + 1 / 2) * 2 powr of_int (e - 52)" "even k"
    and "2 powr of_int e \<le> \<bar>x\<bar>" "\<bar>x\<bar> < 2 powr of_int (e + 1)" "- 1022 \<le> e"
  shows "round_double x = of_int k * 2 powr of_int (e - 52)"
proof -
  define U :: real where "U = 2 powr of_int (e - 52)"
  have U: "0 < U" by (simp add: U_def)
  have u: "ulp x = U" unfolding ulp_def U_def binade_eq [OF assms(3-5)] ..
  have x: "x = (of_int k + 1 / 2) * U" using assms(1) by (simp only: U_def)
  have q: "x / U = of_int k + 1 / 2" using U by (simp add: x)
  have "x \<noteq> 0" using assms(3) by (smt (verit) powr_gt_zero)
  then have "round_double x = of_int (round_half_even (x / U)) * U"
    by (simp only: round_double_def u if_False)
  also have "\<dots> = of_int k * U"
    by (simp only: q round_half_even_tie [OF assms(2)])
  finally show ?thesis by (simp only: U_def)
qed

lemma round_double_underflow:
  assumes "0 < x" "x < 2 powr (- 1075)"
  shows "round_double x = 0"
proof -
  have "2 powr (- 1075) < (2::real) powr (- 1022)" by simp
  with assms(2) have "x < 2 powr (- 1022)" by (rule less_trans)
  with assms(1) have b: "binade x = - 1022" by (intro binade_subnormal) simp_all
  have u: "ulp x = 2 powr (- 1074)" by (simp add: ulp_def b)
  have "x / 2 powr (- 1074) < 2 powr (- 1075) / 2 powr (- 1074)"
    using assms(2) by (simp add: divide_strict_right_mono)
  also have "2 powr (- 1075) / 2 powr (- 1074) = (2::real) powr (- 1)"
    by (simp flip: powr_diff)
  finally have "x / ulp x < 1 / 2" by (simp add: u powr_minus inverse_eq_divide)
  moreover have "0 \<le> x / ulp x" using assms(1) by (simp add: u)
  ultimately show ?thesis
    by (simp add: round_double_def round_half_even_below_half)
qed

lemma round_double_0: "round_double 0 = 0"
  by (simp add: round_double_def)

lemma round_double_1: "round_double 1 = 1"
  by (rule round_double_representable [where k = "2 ^ 52" and e = 0])
     (simp_all add: powr_minus)

lemma round_double_1e16: "round_double 10000000000000000 = 10000000000000000"
  by (rule round_double_representable [where k = 5000000000000000 and e = 53])
     (simp_all add: powr_minus)

lemma round_double_m1e16: "round_double (- 10000000000000000) = - 10000000000000000"
  by (rule round_double_representable [where k = "- 5000000000000000" and e = 53])
     (simp_all add: powr_minus)

lemma round_double_1e16_plus_1: "round_double 10000000000000001 = 10000000000000000"
  using round_double_tie_even [where x = 10000000000000001 and k = 5000000000000000 and e = 53]
  by (simp add: powr_minus)

lemma round_double_m2000: "round_double (- 2000) = - 2000"
  by (rule round_double_representable [where k = "- 2000 * 2 ^ 42" and e = 10])
     (simp_all add: powr_minus)

lemma exp_m2000_tiny: "exp (- 2000 :: real) < 2 powr (- 1075)"
proof -
  have "(2::real) \<le> exp 1" using exp_ge_add_one_self [of "1::real"] by simp
  then have "(2::real) ^ 2000 \<le> exp 1 ^ 2000" by (intro power_mono) simp_all
  also have "\<dots> = exp (2000 :: real)" using exp_of_nat_mult [of 2000 "1::real"] by simp
  finally have a: "(2::real) ^ 2000 \<le> exp 2000" .
  have "(2::real) ^ 1075 < 2 ^ 2000" by (rule power_strict_increasing) simp_all
  with a have "(2::real) ^ 1075 < exp 2000" by simp
  then have "inverse (exp (2000::real)) < inverse (2 ^ 1075)"
    by (intro less_imp_inverse_less) simp_all
  then show ?thesis by (simp add: exp_minus powr_minus)
qed

lemma round_double_exp_m2000: "round_double (exp (- 2000)) = 0"
  by (rule round_double_underflow) (simp_all add: exp_m2000_tiny)

lemma round_half_even_ge: "of_int n \<le> q \<Longrightarrow> n \<le> round_half_even q"
proof -
  assume "of_int n \<le> q"
  then have "n \<le> \<lfloor>q\<rfloor>" by (simp add: le_floor_iff)
  then show ?thesis by (simp add: round_half_even_def Let_def)
qed

lemma ulp_pos: "0 < ulp x"
  by (simp add: ulp_def)

lemma round_double_nonneg: "0 \<le> v \<Longrightarrow> 0 \<le> round_double v"
proof -
  assume v: "0 \<le> v"
  then have "(of_int 0 :: real) \<le> v / ulp v" using ulp_pos [of v] by simp
  then have "0 \<le> round_half_even (v / ulp v)" by (rule round_half_even_ge)
  then show ?thesis using ulp_pos [of v] by (simp add: round_double_def)
qed

lemma round_double_ge_1:
  assumes "1 \<le> v"
  shows "1 \<le> round_double v"
proof -
  define e where "e = \<lfloor>log 2 \<bar>v\<bar>\<rfloor>"
  have v: "\<bar>v\<bar> = v" "0 < v" using assms by simp_all
  have "0 \<le> log 2 v" using assms by simp
  then have e0: "0 \<le> e" by (simp add: e_def v)
  then have b: "binade v = e" by (simp add: binade_def e_def)
  have lo: "2 powr of_int e \<le> v"
    using v(2) by (simp add: powr_le_iff e_def v(1))
  define U :: real where "U = 2 powr of_int (e - 52)"
  have U: "0 < U" by (simp add: U_def)
  have u: "ulp v = U" by (simp only: ulp_def b U_def)
  have split: "2 powr of_int e = 2 ^ 52 * U"
  proof -
    have "(2::real) powr of_int e = 2 powr (52 + of_int (e - 52))" by simp
    also have "\<dots> = 2 powr 52 * 2 powr of_int (e - 52)" by (simp only: powr_add)
    finally show ?thesis by (simp add: U_def)
  qed
  have "of_int (2 ^ 52) \<le> v / U"
    using lo U by (simp add: split pos_le_divide_eq)
  then have "2 ^ 52 \<le> round_half_even (v / U)" by (rule round_half_even_ge)
  then have "(2 ^ 52 :: real) \<le> of_int (round_half_even (v / U))"
    by (metis of_int_le_iff of_int_numeral of_int_power)
  then have "2 ^ 52 * U \<le> of_int (round_half_even (v / U)) * U"
    using U by (simp only: mult_le_cancel_right_pos)
  moreover have "1 \<le> 2 powr (of_int e :: real)" using e0 by (simp add: ge_one_powr_ge_zero)
  ultimately have "1 \<le> of_int (round_half_even (v / U)) * U" by (simp only: split [symmetric])
  then show ?thesis using v(2) by (simp add: round_double_def u)
qed

lemma sound_rounding_round_double: "sound_rounding round_double"
  by (simp add: sound_rounding_def round_double_0 round_double_nonneg round_double_ge_1)

lemma sound_rounding_exact: "sound_rounding (\<lambda>v. v)"
  by (simp add: sound_rounding_def)

text \<open>With the identity as rounding operator the rounded functions are the exact ones.\<close>

lemma sum_rnd_exact: "sum_rnd (\<lambda>v. v) xs = sum_py xs"
  by (simp add: sum_rnd_def sum_py_def)

lemma prod_rnd_exact: "prod_rnd (\<lambda>v. v) xs = prod_py xs"
  by (simp add: prod_rnd_def prod_py_def)

lemma dot_rnd_exact: "dot_rnd (\<lambda>v. v) x y = dot x y"
  by (simp add: dot_rnd_def dot_def sum_rnd_exact)

lemma chain_dot_rnd_exact: "chain_dot_rnd (\<lambda>v. v) xs = chain_dot xs"
  by (simp add: chain_dot_rnd_def chain_dot_def sum_rnd_exact prod_rnd_exact split: sum.splits)

lemma softmax_exp_loop_rnd_exact:
  "softmax_exp_loop_rnd (\<lambda>v. v) m items y t = softmax_exp_loop m items y t"
  by (induction m items y t rule: softmax_exp_loop.induct) (simp_all add: Let_def split: sum.splits)

lemma softmax_div_loop_rnd_exact:
  "softmax_div_loop_rnd (\<lambda>v. v) t cs y = softmax_div_loop t cs y"
  by (induction t cs y rule: softmax_div_loop.induct) (simp_all split: sum.splits)

lemma softmax_rnd_exact: "softmax_rnd (\<lambda>v. v) y = softmax y"
  by (simp add: softmax_rnd_def softmax_def softmax_exp_loop_rnd_exact softmax_div_loop_rnd_exact
      split: sum.splits prod.splits)

lemma dot_rnd_commute_unequal_lengths:
  "length x \<noteq> length y \<Longrightarrow> dot_rnd r x y = dot_rnd r y x"
  by (auto simp: dot_rnd_def mult.commute)

section \<open>Vector products\<close>

text \<open>
  C1 (evaluation at an input where the code departs from the claim): for
  \<open>x = {0: 1, 1: 1}\<close> and \<open>A = {(0, 5): 2, (1, 5): 3}\<close> the loop of \<open>dotvecmat\<close> leaves
  \<open>3\<close> under key \<open>5\<close>, because it reads the old value with \<open>C.get(j, 0.)\<close> (the row
  index) and not under the key \<open>k\<close> it assigns; the accumulated sum of
  \<open>x[i] * A[(i, 5)]\<close> is \<open>5\<close>.
\<close>

theorem dotvecmat_reads_row_key:
  "map_of (dotvecmat [(0 :: nat, 1), (1, 1)] [((0, 5), 2), ((1, 5), 3)]) 5 = Some 3 \<and>
   dotvecmat_accumulated [(0 :: nat, 1), (1, 1)] [((0, 5), 2), ((1, 5), 3)] 5 = 5"
  by (simp add: dotvecmat_def dotvecmat_step_def dotvecmat_accumulated_def dict_get_def)

text \<open>
  C3 (as stated, refuted): \<open>chain_dot\<close> called with no vector at all does not return a
  value; \<open>min\<close> of the empty sequence raises \<open>ValueError\<close>.
\<close>

theorem chain_dot_no_arguments_raises:
  "chain_dot ([] :: (nat, real) dict list) = Inl ValueError"
  by (simp add: chain_dot_def min_len_def)

text \<open>
  C3 (amended): \<open>chain_dot\<close> fails with \<open>ValueError\<close> on an empty sequence of vectors,
  and returns a number on every non-empty one.
\<close>

theorem chain_dot_returns_iff_nonempty:
  "(xs = [] \<longrightarrow> chain_dot xs = Inl ValueError) \<and>
   (xs \<noteq> [] \<longrightarrow> (\<exists>r. chain_dot xs = Inr r))"
  by (cases xs) (simp_all add: chain_dot_def min_len_def)

theorem chain_dot_returns_iff_nonempty_witness:
  "chain_dot ([] :: (nat, real) dict list) = Inl ValueError \<and>
   [[(0 :: nat, 2 :: real)]] \<noteq> [] \<and> (\<exists>r. chain_dot [[(0 :: nat, 2)]] = Inr r)"
  using chain_dot_returns_iff_nonempty [of "[] :: (nat, real) dict list"]
    chain_dot_returns_iff_nonempty [of "[[(0 :: nat, 2)]]"]
  by simp

text \<open>
  C4 (as stated, refuted): on doubles the result depends on the order of the arguments. For
  \<open>x = {0: 1e16, 1: -1e16, 2: 1}\<close> and \<open>y = {2: 1, 0: 1, 1: 1}\<close>, \<open>dot(x, y)\<close> sums in the key
  order of \<open>y\<close> and gives \<open>0.0\<close> (the \<open>1\<close> is absorbed by \<open>1e16\<close>), \<open>dot(y, x)\<close> sums in the
  key order of \<open>x\<close> and gives \<open>1.0\<close>; \<open>chain_dot(x, y)\<close> and \<open>chain_dot(y, x)\<close> differ likewise.
\<close>

theorem dot_order_changes_rounding:
  "dot_rnd round_double [(0 :: nat, 10000000000000000), (1, - 10000000000000000), (2, 1)]
                        [(2, 1), (0, 1), (1, 1)] = 0 \<and>
   dot_rnd round_double [(2 :: nat, 1), (0, 1), (1, 1)]
                        [(0, 10000000000000000), (1, - 10000000000000000), (2, 1)] = 1 \<and>
   chain_dot_rnd round_double [[(0 :: nat, 10000000000000000), (1, - 10000000000000000), (2, 1)],
                               [(2, 1), (0, 1), (1, 1)]] = Inr 1 \<and>
   chain_dot_rnd round_double [[(2 :: nat, 1), (0, 1), (1, 1)],
                               [(0, 10000000000000000), (1, - 10000000000000000), (2, 1)]] = Inr 0"
  by (simp add: dot_rnd_def chain_dot_rnd_def sum_rnd_def prod_rnd_def dict_get_def min_len_def
      keys_def round_double_0 round_double_1 round_double_1e16 round_double_m1e16
      round_double_1e16_plus_1)

text \<open>
  C4 (amended): over well-formed dicts (distinct keys) and exact real arithmetic, \<open>dot\<close> is
  commutative, and \<open>chain_dot\<close> gives the same outcome for every permutation \<open>ys\<close> of its
  argument sequence \<open>xs\<close> (the same number, or \<open>ValueError\<close> for the empty sequence). With
  any rounding of the operations, \<open>dot x y\<close> and \<open>dot y x\<close> are still equal when the two
  vectors differ in length: both calls then iterate over the same vector.
\<close>

theorem dot_chain_dot_order_independent:
  "(wf_dict x \<and> wf_dict y \<longrightarrow> dot x y = dot y x) \<and>
   ((\<forall>d\<in>set xs. wf_dict d) \<and> mset ys = mset xs \<longrightarrow> chain_dot ys = chain_dot xs) \<and>
   (length x \<noteq> length y \<longrightarrow> dot_rnd r x y = dot_rnd r y x)"
proof (intro conjI impI)
  assume "wf_dict x \<and> wf_dict y"
  then show "dot x y = dot y x"
    by (simp add: dot_as_sum Int_commute mult.commute)
next
  assume a: "(\<forall>d\<in>set xs. wf_dict d) \<and> mset ys = mset xs"
  show "chain_dot ys = chain_dot xs"
  proof (cases "xs = []")
    case True
    then show ?thesis using a by simp
  next
    case False
    have sets: "set ys = set xs" using a by (intro mset_eq_setD) simp
    then have "ys \<noteq> []" "\<forall>d\<in>set ys. wf_dict d" using False a by auto
    then show ?thesis
      using False a by (simp add: chain_dot_as_sum sets)
  qed
next
  assume "length x \<noteq> length y"
  then show "dot_rnd r x y = dot_rnd r y x"
    by (rule dot_rnd_commute_unequal_lengths)
qed

theorem dot_chain_dot_order_independent_witness:
  "wf_dict ([(0, 1), (1, 2)] :: (nat, real) dict) \<and>
   wf_dict ([(1, 21), (2, 3)] :: (nat, real) dict) \<and>
   mset [([(1, 21), (2, 3)] :: (nat, real) dict),
         ([(0, 1), (1, 2)] :: (nat, real) dict)] =
     mset [([(0, 1), (1, 2)] :: (nat, real) dict),
         ([(1, 21), (2, 3)] :: (nat, real) dict)] \<and>
   dot ([(0, 1), (1, 2)] :: (nat, real) dict) ([(1, 21), (2, 3)] :: (nat, real) dict) =
     dot ([(1, 21), (2, 3)] :: (nat, real) dict) ([(0, 1), (1, 2)] :: (nat, real) dict) \<and>
   chain_dot [([(1, 21), (2, 3)] :: (nat, real) dict),
         ([(0, 1), (1, 2)] :: (nat, real) dict)] =
     chain_dot [([(0, 1), (1, 2)] :: (nat, real) dict),
         ([(1, 21), (2, 3)] :: (nat, real) dict)] \<and>
   length ([(0, 1)] :: (nat, real) dict) \<noteq> length ([(0, 10000000000000000), (1, 1)] :: (nat, real) dict) \<and>
   dot_rnd round_double ([(0, 1)] :: (nat, real) dict) ([(0, 10000000000000000), (1, 1)] :: (nat, real) dict) =
     dot_rnd round_double ([(0, 10000000000000000), (1, 1)] :: (nat, real) dict) ([(0, 1)] :: (nat, real) dict)"
proof -
  let ?x = "[(0 :: nat, 1 :: real), (1, 2)]" and ?y = "[(1 :: nat, 21 :: real), (2, 3)]"
  let ?p = "[(0 :: nat, 1 :: real)]" and ?q = "[(0 :: nat, 10000000000000000 :: real), (1, 1)]"
  have wx: "wf_dict ?x" and wy: "wf_dict ?y" by (simp_all add: wf_dict_def keys_def)
  have wxs: "\<forall>d\<in>set [?x, ?y]. wf_dict d" using wx wy by simp
  have perm: "mset [?y, ?x] = mset [?x, ?y]" by (simp add: add_mset_commute)
  have len: "length ?p \<noteq> length ?q" by simp
  note exact = dot_chain_dot_order_independent [of ?x ?y "[?x, ?y]" "[?y, ?x]" round_double]
  note rounded = dot_chain_dot_order_independent [of ?p ?q "[]" "[]" round_double]
  have "dot ?x ?y = dot ?y ?x" using exact wx wy by blast
  moreover have "chain_dot [?y, ?x] = chain_dot [?x, ?y]" using exact wxs perm by blast
  moreover have "dot_rnd round_double ?p ?q = dot_rnd round_double ?q ?p" using rounded len by blast
  ultimately show ?thesis using wx wy perm len by simp
qed

section \<open>Matrix product\<close>





section \<open>Sherman-Morrison update\<close>

lemma sherman_morrison_loop_returns:
  assumes "den \<noteq> 0" "wf_dict corr"
  shows "\<exists>A'. sherman_morrison_loop den corr A = Inr A' \<and>
           (\<forall>k. map_of A' k =
              (case map_of corr k of
                 Some c \<Rightarrow> Some (dict_get A k 0 - c / den)
               | None \<Rightarrow> map_of A k))"
  using assms(2)
proof (induction corr arbitrary: A)
  case Nil
  then show ?case by simp
next
  case (Cons e rest)
  obtain k c where e: "e = (k, c)" by (cases e)
  let ?A1 = "dict_set k (dict_get A k 0 - c / den) A"
  from Cons.prems have wf: "wf_dict rest" and fresh: "map_of rest k = None"
    by (auto simp: e wf_dict_def keys_def map_of_eq_None_iff)
  from Cons.IH [OF wf, of ?A1] obtain A' where
    A': "sherman_morrison_loop den rest ?A1 = Inr A'"
      "\<And>k'. map_of A' k' =
         (case map_of rest k' of
            Some c' \<Rightarrow> Some (dict_get ?A1 k' 0 - c' / den)
          | None \<Rightarrow> map_of ?A1 k')"
    by blast
  have "map_of A' k' =
         (case map_of (e # rest) k' of
            Some c' \<Rightarrow> Some (dict_get A k' 0 - c' / den)
          | None \<Rightarrow> map_of A k')" for k'
    using fresh by (simp add: A'(2) e dict_get_dict_set map_of_dict_set split: option.splits)
  then show ?case using assms(1) A'(1) by (simp add: e)
qed

lemma wf_foldl_matmul2d_step: "wf_dict C \<Longrightarrow> wf_dict (foldl matmul2d_step C ps)"
proof (induction ps arbitrary: C)
  case Nil
  then show ?case by simp
next
  case (Cons e ps)
  have "wf_dict (matmul2d_step C e)"
    using Cons.prems by (auto simp: matmul2d_step_def wf_dict_set split: prod.splits)
  then show ?case using Cons.IH by simp
qed

lemma wf_matmul2d: "wf_dict (matmul2d A B)"
  using wf_foldl_matmul2d_step [of "[]"] by (simp add: matmul2d_def wf_dict_def keys_def)

text \<open>
  C2 (as stated, refuted): for \<open>A_inv = {(0, 0): 1}\<close>, \<open>u = {0: 1}\<close>, \<open>v = {0: -1}\<close> the
  correction matrix has the key \<open>(0, 0)\<close> and \<open>den\<close> is zero, so the first division of the
  loop raises \<open>ZeroDivisionError\<close>: no updated mapping is returned.
\<close>

theorem sherman_morrison_zero_den_raises:
  "map_of (matmul2d (matmul2d [((0 :: nat, 0), 1)] (outer [(0, 1)] [(0, - 1)])) [((0, 0), 1)]) (0, 0)
     = Some (- 1) \<and>
   1 + dot (dotvecmat [(0 :: nat, 1)] [((0, 0), 1)]) [(0, - 1)] = 0 \<and>
   sherman_morrison [((0 :: nat, 0), 1)] [(0, 1)] [(0, - 1)] = Inl ZeroDivisionError"
  by (simp add: sherman_morrison_def matmul2d_def matmul2d_step_def outer_def dot_def
      dotvecmat_def dotvecmat_step_def dict_get_def sum_py_def)

text \<open>
  C2 (amended): whenever \<open>den\<close> is not zero (or the correction matrix is empty),
  \<open>sherman_morrison\<close> returns a mapping in which every key \<open>k\<close> of the correction holds
  \<open>A_inv.get(k, 0) - correction[k] / den\<close> and every other key is as in \<open>A_inv\<close> on
  entry (present with its prior value, or absent); whenever \<open>den\<close> is zero and the
  correction matrix is not empty, the call raises \<open>ZeroDivisionError\<close>.
\<close>

theorem sherman_morrison_update:
  "(1 + dot (dotvecmat u A_inv) v \<noteq> 0 \<or> matmul2d (matmul2d A_inv (outer u v)) A_inv = [] \<longrightarrow>
      (\<exists>A'. sherman_morrison A_inv u v = Inr A' \<and>
           (\<forall>k c. map_of (matmul2d (matmul2d A_inv (outer u v)) A_inv) k = Some c \<longrightarrow>
                  map_of A' k = Some (dict_get A_inv k 0 - c / (1 + dot (dotvecmat u A_inv) v))) \<and>
           (\<forall>k. k \<notin> set (keys (matmul2d (matmul2d A_inv (outer u v)) A_inv)) \<longrightarrow>
                  map_of A' k = map_of A_inv k))) \<and>
   (1 + dot (dotvecmat u A_inv) v = 0 \<and> matmul2d (matmul2d A_inv (outer u v)) A_inv \<noteq> [] \<longrightarrow>
      sherman_morrison A_inv u v = Inl ZeroDivisionError)"
proof (intro conjI impI)
  let ?den = "1 + dot (dotvecmat u A_inv) v"
  let ?corr = "matmul2d (matmul2d A_inv (outer u v)) A_inv"
  {
    assume "?den = 0 \<and> ?corr \<noteq> []"
    then obtain e rest where den: "?den = 0" and c: "?corr = e # rest" by (cases ?corr) auto
    obtain k x where e: "e = (k, x)" by (cases e)
    show "sherman_morrison A_inv u v = Inl ZeroDivisionError"
      unfolding sherman_morrison_def Let_def c e using den by simp
  }
  assume ok: "?den \<noteq> 0 \<or> ?corr = []"
  show "\<exists>A'. sherman_morrison A_inv u v = Inr A' \<and>
           (\<forall>k c. map_of ?corr k = Some c \<longrightarrow> map_of A' k = Some (dict_get A_inv k 0 - c / ?den)) \<and>
           (\<forall>k. k \<notin> set (keys ?corr) \<longrightarrow> map_of A' k = map_of A_inv k)"
  proof (cases "?corr = []")
    case True
    then show ?thesis by (simp add: sherman_morrison_def keys_def)
  next
    case False
    with ok have den: "?den \<noteq> 0" by simp
    from sherman_morrison_loop_returns [OF den wf_matmul2d, of "matmul2d A_inv (outer u v)" A_inv A_inv]
    obtain A' where A': "sherman_morrison_loop ?den ?corr A_inv = Inr A'"
      "\<And>k. map_of A' k =
         (case map_of ?corr k of Some c \<Rightarrow> Some (dict_get A_inv k 0 - c / ?den) | None \<Rightarrow> map_of A_inv k)"
      by blast
    have "sherman_morrison A_inv u v = Inr A'"
      using A'(1) by (simp add: sherman_morrison_def)
    moreover have "\<forall>k c. map_of ?corr k = Some c \<longrightarrow> map_of A' k = Some (dict_get A_inv k 0 - c / ?den)"
      by (simp add: A'(2))
    moreover have "\<forall>k. k \<notin> set (keys ?corr) \<longrightarrow> map_of A' k = map_of A_inv k"
      by (simp add: A'(2) map_of_None_iff_keys [symmetric])
    ultimately show ?thesis by blast
  qed
qed

theorem sherman_morrison_update_witness:
  "(\<exists>A'. sherman_morrison ([((0, 0), 1)] :: (nat \<times> nat, real) dict) [(0, 1)] [(0, 1)] = Inr A' \<and>
         map_of A' (0, 0) = Some (1 / 2)) \<and>
   sherman_morrison ([((0, 0), 1)] :: (nat \<times> nat, real) dict) [(0, 1)] [(0, - 1)] = Inl ZeroDivisionError"
proof -
  let ?A = "[((0, 0), 1)] :: (nat \<times> nat, real) dict"
  let ?u = "[(0, 1)] :: (nat, real) dict"
  let ?v = "[(0, - 1)] :: (nat, real) dict"
  have den: "1 + dot (dotvecmat ?u ?A) ?u = 2"
    by (simp add: dot_def dotvecmat_def dotvecmat_step_def dict_get_def sum_py_def)
  have corr: "matmul2d (matmul2d ?A (outer ?u ?u)) ?A = [((0, 0), 1)]"
    by (simp add: matmul2d_def matmul2d_step_def outer_def dict_get_def)
  have h: "1 + dot (dotvecmat ?u ?A) ?u \<noteq> 0 \<or> matmul2d (matmul2d ?A (outer ?u ?u)) ?A = []"
    by (simp add: den)
  have den0: "1 + dot (dotvecmat ?u ?A) ?v = 0"
    by (simp add: dot_def dotvecmat_def dotvecmat_step_def dict_get_def sum_py_def)
  have corr0: "matmul2d (matmul2d ?A (outer ?u ?v)) ?A = [((0, 0), - 1)]"
    by (simp add: matmul2d_def matmul2d_step_def outer_def dict_get_def)
  have h0: "1 + dot (dotvecmat ?u ?A) ?v = 0 \<and> matmul2d (matmul2d ?A (outer ?u ?v)) ?A \<noteq> []"
    by (simp add: den0 corr0)
  have "\<exists>A'. sherman_morrison ?A ?u ?u = Inr A' \<and> map_of A' (0, 0) = Some (1 / 2)"
    using conjunct1 [OF sherman_morrison_update [of ?u ?A ?u], THEN mp, OF h] unfolding den corr
    by (auto simp: dict_get_def)
  moreover have "sherman_morrison ?A ?u ?v = Inl ZeroDivisionError"
    using conjunct2 [OF sherman_morrison_update [of ?u ?A ?v], THEN mp, OF h0] .
  ultimately show ?thesis by blast
qed

section \<open>Softmax\<close>

lemma softmax_exp_loop_result:
  "distinct (map fst (pre @ items)) \<Longrightarrow>
   softmax_exp_loop m items (pre @ items) t =
     Inr (pre @ map (\<lambda>e. (fst e, exp (snd e - m))) items,
          t + sum_list (map (\<lambda>e. exp (snd e - m)) items))"
proof (induction items arbitrary: pre t)
  case Nil
  then show ?case by simp
next
  case (Cons e items)
  obtain c p where e: "e = (c, p)" by (cases e)
  from Cons.prems have fresh: "c \<notin> fst ` set pre"
    and dist: "distinct (map fst ((pre @ [(c, exp (p - m))]) @ items))"
    by (auto simp: e)
  show ?case
    using Cons.IH [OF dist, of "t + exp (p - m)"] fresh
    by (simp add: e dict_set_at dict_item_at)
qed

lemma softmax_div_loop_result:
  "tot \<noteq> 0 \<Longrightarrow> distinct (map fst (pre @ rest)) \<Longrightarrow>
   softmax_div_loop tot (map fst rest) (pre @ rest) =
     Inr (pre @ map (\<lambda>e. (fst e, snd e / tot)) rest)"
proof (induction rest arbitrary: pre)
  case Nil
  then show ?case by simp
next
  case (Cons e rest)
  obtain c v where e: "e = (c, v)" by (cases e)
  from Cons.prems have fresh: "c \<notin> fst ` set pre"
    and dist: "distinct (map fst ((pre @ [(c, v / tot)]) @ rest))"
    by (auto simp: e)
  show ?case
    using Cons.IH [OF Cons.prems(1) dist] fresh Cons.prems(1)
    by (simp add: e dict_set_at dict_item_at)
qed

lemma softmax_result:
  assumes "wf_dict y" "y \<noteq> []"
  defines "m \<equiv> max_values (dict_values y)"
  defines "tot \<equiv> sum_list (map (\<lambda>e. exp (snd e - m)) y)"
  shows "0 < tot" and "softmax y = Inr (map (\<lambda>e. (fst e, exp (snd e - m) / tot)) y)"
proof -
  let ?y1 = "map (\<lambda>e. (fst e, exp (snd e - m))) y"
  show pos: "0 < tot"
    unfolding tot_def using assms(2) by (rule sum_list_map_pos) simp
  have d1: "distinct (map fst ([] @ y))" using assms(1) by (simp add: wf_dict_def keys_def)
  have d2: "distinct (map fst ([] @ ?y1))"
    using assms(1) by (simp add: wf_dict_def keys_def comp_def)
  have l1: "softmax_exp_loop m y y 0 = Inr (?y1, tot)"
    using softmax_exp_loop_result [OF d1, of m 0] by (simp add: tot_def)
  have "softmax_div_loop tot (map fst ?y1) ([] @ ?y1) = Inr ([] @ map (\<lambda>e. (fst e, snd e / tot)) ?y1)"
    using pos by (intro softmax_div_loop_result [OF _ d2]) simp
  then have l2: "softmax_div_loop tot (keys ?y1) ?y1 = Inr (map (\<lambda>e. (fst e, exp (snd e - m) / tot)) y)"
    by (simp add: keys_def comp_def)
  have "softmax y = (case softmax_exp_loop m y y 0 of Inl e \<Rightarrow> Inl e
           | Inr (y_pred', tot) \<Rightarrow> softmax_div_loop tot (keys y_pred') y_pred')"
    using assms(2) by (simp add: softmax_def m_def)
  then show "softmax y = Inr (map (\<lambda>e. (fst e, exp (snd e - m) / tot)) y)"
    by (simp add: l1 l2)
qed

text \<open>
  C6: for a non-empty well-formed mapping, \<open>softmax\<close> returns a mapping whose values sum to
  exactly 1 (over the reals); on the empty mapping it returns the empty mapping.
\<close>

theorem softmax_sums_to_one:
  "(wf_dict y \<and> y \<noteq> [] \<longrightarrow> (\<exists>d. softmax y = Inr d \<and> sum_list (dict_values d) = 1)) \<and>
   softmax ([] :: ('k, real) dict) = Inr []"
proof (intro conjI impI)
  show "softmax ([] :: ('k, real) dict) = Inr []" by (simp add: softmax_def)
  assume a: "wf_dict y \<and> y \<noteq> []"
  let ?m = "max_values (dict_values y)"
  let ?tot = "sum_list (map (\<lambda>e. exp (snd e - ?m)) y)"
  from a have pos: "0 < ?tot" and res: "softmax y = Inr (map (\<lambda>e. (fst e, exp (snd e - ?m) / ?tot)) y)"
    using softmax_result [of y] by simp_all
  have "sum_list (dict_values (map (\<lambda>e. (fst e, exp (snd e - ?m) / ?tot)) y)) =
          sum_list (map (\<lambda>e. exp (snd e - ?m) / ?tot) y)"
    by (simp add: dict_values_def comp_def)
  also have "\<dots> = ?tot / ?tot"
    by (rule sum_list_map_divide)
  also have "\<dots> = 1" using pos by simp
  finally show "\<exists>d. softmax y = Inr d \<and> sum_list (dict_values d) = 1"
    using res by simp
qed

theorem softmax_sums_to_one_witness:
  "wf_dict [(0 :: nat, 0 :: real), (1, 0)] \<and> [(0 :: nat, 0 :: real), (1, 0)] \<noteq> [] \<and>
   (\<exists>d. softmax [(0 :: nat, 0 :: real), (1, 0)] = Inr d \<and> sum_list (dict_values d) = 1)"
proof -
  have h: "wf_dict [(0 :: nat, 0 :: real), (1, 0)] \<and> [(0 :: nat, 0 :: real), (1, 0)] \<noteq> []"
    by (simp add: wf_dict_def keys_def)
  show ?thesis
    using h softmax_sums_to_one [of "[(0 :: nat, 0 :: real), (1, 0)]"] by blast
qed

lemma softmax_exp_loop_rnd_result:
  "distinct (map fst (pre @ items)) \<Longrightarrow>
   softmax_exp_loop_rnd r m items (pre @ items) t =
     Inr (pre @ map (\<lambda>e. (fst e, r (exp (r (snd e - m))))) items,
          foldl (\<lambda>a b. r (a + b)) t (map (\<lambda>e. r (exp (r (snd e - m)))) items))"
proof (induction items arbitrary: pre t)
  case Nil
  then show ?case by simp
next
  case (Cons e items)
  obtain c p where e: "e = (c, p)" by (cases e)
  let ?v = "r (exp (r (p - m)))"
  from Cons.prems have fresh: "c \<notin> fst ` set pre"
    and dist: "distinct (map fst ((pre @ [(c, ?v)]) @ items))"
    by (auto simp: e)
  show ?case
    using Cons.IH [OF dist, of "r (t + ?v)"] fresh
    by (simp add: e dict_set_at dict_item_at)
qed

lemma softmax_div_loop_rnd_result:
  "tot \<noteq> 0 \<Longrightarrow> distinct (map fst (pre @ rest)) \<Longrightarrow>
   softmax_div_loop_rnd r tot (map fst rest) (pre @ rest) =
     Inr (pre @ map (\<lambda>e. (fst e, r (snd e / tot))) rest)"
proof (induction rest arbitrary: pre)
  case Nil
  then show ?case by simp
next
  case (Cons e rest)
  obtain c v where e: "e = (c, v)" by (cases e)
  from Cons.prems have fresh: "c \<notin> fst ` set pre"
    and dist: "distinct (map fst ((pre @ [(c, r (v / tot))]) @ rest))"
    by (auto simp: e)
  show ?case
    using Cons.IH [OF Cons.prems(1) dist] fresh Cons.prems(1)
    by (simp add: e dict_set_at dict_item_at)
qed

lemma foldl_max_py_mem: "foldl max_py a vs \<in> set (a # vs)"
  by (induction vs arbitrary: a) (auto simp: max_py_def)

lemma max_values_mem: "vs \<noteq> [] \<Longrightarrow> max_values vs \<in> set vs"
  using foldl_max_py_mem [of "hd vs" "tl vs"] by (cases vs) (simp_all add: max_values_def)

lemma rounded_total_ge_1:
  assumes "sound_rounding r" "\<forall>v\<in>set vs. 0 \<le> v"
    and "1 \<le> t \<or> (0 \<le> t \<and> (\<exists>v\<in>set vs. 1 \<le> v))"
  shows "1 \<le> foldl (\<lambda>a b. r (a + b)) t vs"
  using assms(2,3)
proof (induction vs arbitrary: t)
  case Nil
  then show ?case by simp
next
  case (Cons v vs)
  have r1: "\<And>w. 1 \<le> w \<Longrightarrow> 1 \<le> r w" and r0: "\<And>w. 0 \<le> w \<Longrightarrow> 0 \<le> r w"
    using assms(1) by (simp_all add: sound_rounding_def)
  from Cons.prems have v: "0 \<le> v" and vs: "\<forall>v\<in>set vs. 0 \<le> v" by simp_all
  have "1 \<le> r (t + v) \<or> (0 \<le> r (t + v) \<and> (\<exists>w\<in>set vs. 1 \<le> w))"
  proof (cases "1 \<le> t \<or> 1 \<le> v")
    case True
    with Cons.prems(2) v have "1 \<le> t + v" by auto
    then show ?thesis using r1 by simp
  next
    case False
    with Cons.prems(2) have "0 \<le> t" "\<exists>w\<in>set vs. 1 \<le> w" by auto
    then show ?thesis using r0 [of "t + v"] v by simp
  qed
  from Cons.IH [OF vs this] show ?case by simp
qed

lemma softmax_rnd_result:
  assumes "sound_rounding r" "wf_dict y" "y \<noteq> []"
  defines "m \<equiv> max_values (dict_values y)"
  defines "tot \<equiv> foldl (\<lambda>a b. r (a + b)) 0 (map (\<lambda>e. r (exp (r (snd e - m)))) y)"
  shows "1 \<le> tot"
    and "softmax_rnd r y = Inr (map (\<lambda>e. (fst e, r (r (exp (r (snd e - m))) / tot))) y)"
proof -
  let ?w = "\<lambda>e :: 'a \<times> real. r (exp (r (snd e - m)))"
  let ?y1 = "map (\<lambda>e. (fst e, ?w e)) y"
  have r1: "\<And>w. 1 \<le> w \<Longrightarrow> 1 \<le> r w" and r0: "\<And>w. 0 \<le> w \<Longrightarrow> 0 \<le> r w" and rz: "r 0 = 0"
    using assms(1) by (simp_all add: sound_rounding_def)
  have nonneg: "\<forall>v\<in>set (map ?w y). 0 \<le> v" using r0 by simp
  have "m \<in> set (dict_values y)"
    unfolding m_def using assms(3) by (intro max_values_mem) (simp add: dict_values_def)
  then obtain e where e: "e \<in> set y" "snd e = m" by (auto simp: dict_values_def)
  have "1 \<le> ?w e" using r1 [of "exp 0"] by (simp add: e(2) rz)
  with e(1) have "\<exists>v\<in>set (map ?w y). 1 \<le> v" by auto
  then show pos: "1 \<le> tot"
    unfolding tot_def using nonneg by (intro rounded_total_ge_1 [OF assms(1)]) simp_all
  have d1: "distinct (map fst ([] @ y))" using assms(2) by (simp add: wf_dict_def keys_def)
  have d2: "distinct (map fst ([] @ ?y1))"
    using assms(2) by (simp add: wf_dict_def keys_def comp_def)
  have l1: "softmax_exp_loop_rnd r m y y 0 = Inr (?y1, tot)"
    using softmax_exp_loop_rnd_result [OF d1, of r m 0] by (simp add: tot_def)
  have "softmax_div_loop_rnd r tot (map fst ?y1) ([] @ ?y1) =
          Inr ([] @ map (\<lambda>e. (fst e, r (snd e / tot))) ?y1)"
    using pos by (intro softmax_div_loop_rnd_result [OF _ d2]) simp
  then have l2: "softmax_div_loop_rnd r tot (keys ?y1) ?y1 = Inr (map (\<lambda>e. (fst e, r (?w e / tot))) y)"
    by (simp add: keys_def comp_def)
  have "softmax_rnd r y = (case softmax_exp_loop_rnd r m y y 0 of Inl e \<Rightarrow> Inl e
           | Inr (y_pred', tot) \<Rightarrow> softmax_div_loop_rnd r tot (keys y_pred') y_pred')"
    using assms(3) by (simp add: softmax_rnd_def m_def)
  then show "softmax_rnd r y = Inr (map (\<lambda>e. (fst e, r (?w e / tot))) y)"
    by (simp add: l1 l2)
qed

lemma softmax_rnd_keys_nonneg:
  assumes "sound_rounding r" "wf_dict y"
  shows "\<exists>d. softmax_rnd r y = Inr d \<and> keys d = keys y \<and> (\<forall>v\<in>set (dict_values d). 0 \<le> v)"
proof (cases "y = []")
  case True
  then show ?thesis by (simp add: softmax_rnd_def dict_values_def)
next
  case False
  let ?m = "max_values (dict_values y)"
  let ?tot = "foldl (\<lambda>a b. r (a + b)) 0 (map (\<lambda>e. r (exp (r (snd e - ?m)))) y)"
  let ?d = "map (\<lambda>e. (fst e, r (r (exp (r (snd e - ?m))) / ?tot))) y"
  have r0: "\<And>w. 0 \<le> w \<Longrightarrow> 0 \<le> r w"
    using assms(1) by (simp add: sound_rounding_def)
  from softmax_rnd_result [OF assms False]
  have pos: "1 \<le> ?tot" and res: "softmax_rnd r y = Inr ?d" by simp_all
  have "keys ?d = keys y" by (simp add: keys_def comp_def)
  moreover have "\<forall>v\<in>set (dict_values ?d). 0 \<le> v"
  proof -
    have "0 \<le> r (r (exp (r (snd e - ?m))) / ?tot)" for e :: "'a \<times> real"
      using pos r0 [of "exp (r (snd e - ?m))"] by (intro r0) simp
    then show ?thesis by (auto simp: dict_values_def)
  qed
  ultimately show ?thesis using res by simp
qed

text \<open>
  C10 (as stated, refuted): on doubles a value of the result can be zero. For
  \<open>y = {0: 0, 1: -2000}\<close> the maximum is \<open>0\<close>, \<open>math.exp(-2000)\<close> underflows to \<open>0.0\<close>, and
  \<open>softmax\<close> returns \<open>{0: 1.0, 1: 0.0}\<close>.
\<close>

theorem softmax_underflows_to_zero:
  "softmax_rnd round_double [(0 :: nat, 0), (1, - 2000)] = Inr [(0, 1), (1, 0)]"
  by (simp add: softmax_rnd_def max_values_def max_py_def dict_values_def keys_def dict_item_def
      round_double_0 round_double_1 round_double_m2000 round_double_exp_m2000)

text \<open>
  C10 (amended): for every well-formed mapping, \<open>softmax\<close> returns a mapping with exactly
  the keys of its argument (in the same order), over exact reals and with every sound
  rounding of the operations; every value of the result is strictly positive over exact
  reals, and not negative with rounding.
\<close>

theorem softmax_keys_and_positive:
  assumes "wf_dict y"
  shows "(\<exists>d. softmax y = Inr d \<and> keys d = keys y \<and> (\<forall>v\<in>set (dict_values d). 0 < v)) \<and>
         (sound_rounding r \<longrightarrow>
            (\<exists>d. softmax_rnd r y = Inr d \<and> keys d = keys y \<and> (\<forall>v\<in>set (dict_values d). 0 \<le> v)))"
proof (intro conjI impI)
  show "\<exists>d. softmax y = Inr d \<and> keys d = keys y \<and> (\<forall>v\<in>set (dict_values d). 0 < v)"
  proof (cases "y = []")
    case True
    then show ?thesis by (simp add: softmax_def dict_values_def)
  next
    case False
    let ?m = "max_values (dict_values y)"
    let ?tot = "sum_list (map (\<lambda>e. exp (snd e - ?m)) y)"
    from assms False have pos: "0 < ?tot"
      and res: "softmax y = Inr (map (\<lambda>e. (fst e, exp (snd e - ?m) / ?tot)) y)"
      using softmax_result [of y] by simp_all
    have "keys (map (\<lambda>e. (fst e, exp (snd e - ?m) / ?tot)) y) = keys y"
      by (simp add: keys_def comp_def)
    moreover have "\<forall>v\<in>set (dict_values (map (\<lambda>e. (fst e, exp (snd e - ?m) / ?tot)) y)). 0 < v"
      using pos by (auto simp: dict_values_def)
    ultimately show ?thesis using res by simp
  qed
next
  assume "sound_rounding r"
  then show "\<exists>d. softmax_rnd r y = Inr d \<and> keys d = keys y \<and> (\<forall>v\<in>set (dict_values d). 0 \<le> v)"
    using assms by (rule softmax_rnd_keys_nonneg)
qed

theorem softmax_keys_and_positive_witness:
  "wf_dict [(0 :: nat, 0 :: real), (1, 0)] \<and> sound_rounding round_double \<and>
   (\<exists>d. softmax [(0 :: nat, 0 :: real), (1, 0)] = Inr d \<and> keys d = [0, 1] \<and>
        0 < dict_get d 0 0 \<and> 0 < dict_get d 1 0) \<and>
   (\<exists>d. softmax_rnd round_double [(0 :: nat, 0 :: real), (1, 0)] = Inr d \<and> keys d = [0, 1] \<and>
        0 \<le> dict_get d 0 0 \<and> 0 \<le> dict_get d 1 0)"
proof -
  have h: "wf_dict [(0 :: nat, 0 :: real), (1, 0)]"
    by (simp add: wf_dict_def keys_def)
  note both = softmax_keys_and_positive [OF h, of round_double]
  from both obtain d where
    d: "softmax [(0 :: nat, 0 :: real), (1, 0)] = Inr d" "keys d = keys [(0 :: nat, 0 :: real), (1, 0)]"
      "\<forall>v\<in>set (dict_values d). 0 < v"
    by blast
  from d(2) obtain a b where ab: "d = [(0, a), (1, b)]"
    by (auto simp: keys_def map_eq_Cons_conv)
  with d(3) have "0 < dict_get d 0 0" "0 < dict_get d 1 0"
    by (simp_all add: dict_values_def dict_get_def)
  with d(1) ab have exact: "\<exists>d. softmax [(0 :: nat, 0 :: real), (1, 0)] = Inr d \<and> keys d = [0, 1] \<and>
        0 < dict_get d 0 0 \<and> 0 < dict_get d 1 0"
    by (simp add: keys_def)
  from both sound_rounding_round_double obtain d' where
    d': "softmax_rnd round_double [(0 :: nat, 0 :: real), (1, 0)] = Inr d'" "keys d' = keys [(0 :: nat, 0 :: real), (1, 0)]"
      "\<forall>v\<in>set (dict_values d'). 0 \<le> v"
    by blast
  from d'(2) obtain a' b' where ab': "d' = [(0, a'), (1, b')]"
    by (auto simp: keys_def map_eq_Cons_conv)
  with d'(3) have "0 \<le> dict_get d' 0 0" "0 \<le> dict_get d' 1 0"
    by (simp_all add: dict_values_def dict_get_def)
  with d'(1) ab' have rounded: "\<exists>d. softmax_rnd round_double [(0 :: nat, 0 :: real), (1, 0)] = Inr d \<and> keys d = [0, 1] \<and>
        0 \<le> dict_get d 0 0 \<and> 0 \<le> dict_get d 1 0"
    by (simp add: keys_def)
  from h sound_rounding_round_double exact rounded show ?thesis by blast
qed

section \<open>Scalar transforms\<close>

lemma sigmoid_logistic_bounds: "0 < 1 / (1 + exp (- x :: real))" "1 / (1 + exp (- x :: real)) < 1"
proof -
  have pos: "0 < exp (- x)" by simp
  then show "0 < 1 / (1 + exp (- x))" by (simp add: add_pos_pos)
  from pos show "1 / (1 + exp (- x)) < 1" by (simp add: add_pos_pos)
qed

text \<open>
  C7: \<open>sigmoid x\<close> is 0 below \<open>-30\<close>, 1 above \<open>30\<close> and the logistic value
  \<open>1 / (1 + e\<^sup>-\<^sup>x)\<close> in between; it always lies in \<open>[0, 1]\<close>, and \<open>sigmoid 0 = 1/2\<close>.
\<close>

theorem sigmoid_cases_and_bounds:
  "(x < - 30 \<longrightarrow> sigmoid x = 0) \<and>
   (x > 30 \<longrightarrow> sigmoid x = 1) \<and>
   (- 30 \<le> x \<and> x \<le> 30 \<longrightarrow> sigmoid x = 1 / (1 + exp (- x))) \<and>
   0 \<le> sigmoid x \<and> sigmoid x \<le> 1 \<and> sigmoid 0 = 1 / 2"
proof -
  have "0 \<le> sigmoid x" "sigmoid x \<le> 1"
    using sigmoid_logistic_bounds [of x] by (simp_all add: sigmoid_def)
  moreover have "sigmoid 0 = 1 / 2" by (simp add: sigmoid_def)
  ultimately show ?thesis by (simp add: sigmoid_def)
qed

theorem sigmoid_cases_and_bounds_witness:
  "(- 100 :: real) < - 30 \<and> sigmoid (- 100) = 0 \<and>
   (100 :: real) > 30 \<and> sigmoid 100 = 1 \<and>
   (- 30 :: real) \<le> 0 \<and> (0 :: real) \<le> 30 \<and> sigmoid 0 = 1 / (1 + exp (- 0))"
  using sigmoid_cases_and_bounds [of "- 100"] sigmoid_cases_and_bounds [of 100]
    sigmoid_cases_and_bounds [of 0]
  by simp

text \<open>
  C8: with \<open>minimum > maximum\<close>, \<open>clamp x minimum maximum\<close> is \<open>minimum\<close>; with
  \<open>minimum \<le> maximum\<close> the result lies in \<open>[minimum, maximum]\<close>.
\<close>

theorem clamp_degenerate_and_range:
  "(minimum > maximum \<longrightarrow> clamp x minimum maximum = minimum) \<and>
   (minimum \<le> maximum \<longrightarrow>
      minimum \<le> clamp x minimum maximum \<and> clamp x minimum maximum \<le> maximum)"
  by (simp add: clamp_def min_py_def max_py_def)

theorem clamp_degenerate_and_range_witness:
  "(1 :: real) > 0 \<and> clamp 5 1 0 = 1 \<and>
   (0 :: real) \<le> 1 \<and> 0 \<le> clamp 5 0 1 \<and> clamp 5 0 1 \<le> 1"
  using clamp_degenerate_and_range [of 0 1 5] clamp_degenerate_and_range [of 1 0 5]
  by simp

text \<open>
  C9: \<open>sigmoid\<close> is monotone non-decreasing on the reals, also across the thresholds
  \<open>-30\<close> and \<open>30\<close>.
\<close>

theorem sigmoid_mono: "x \<le> y \<Longrightarrow> sigmoid x \<le> sigmoid y"
proof -
  assume xy: "x \<le> y"
  have logistic: "1 / (1 + exp (- x)) \<le> 1 / (1 + exp (- y))"
  proof -
    have "exp (- y) \<le> exp (- x)" using xy by simp
    moreover have "0 < 1 + exp (- y)" by (simp add: add_pos_pos)
    ultimately show ?thesis by (simp add: frac_le)
  qed
  show ?thesis
    using xy logistic sigmoid_logistic_bounds [of x] sigmoid_logistic_bounds [of y]
    by (simp add: sigmoid_def)
qed

theorem sigmoid_mono_witness:
  "(- 31 :: real) \<le> 0 \<and> sigmoid (- 31) \<le> sigmoid 0"
  using sigmoid_mono [of "- 31" 0] by simp

end
